theory Spec2Isabelle
  imports Main
begin

section \<open>The Playfair cipher of \<open>src/playfair.cpp\<close>\<close>

text \<open>
  The class \<open>PlayfairCipher\<close> has two fields, the text being worked on and the
  5 by 5 grid, and three private methods that \<open>process\<close> calls in sequence:
  \<open>buildCipherGrid\<close>, \<open>normalizeAndPrepareText\<close> and \<open>transformDigraphPairs\<close>.
  Each method is embedded as a function on the record of the fields. A \<open>char\<close> is a byte,
  a \<open>std::string\<close> a list of bytes, a C++ \<open>int\<close> an \<open>int\<close> (no computation below
  leaves the 32-bit range for inputs inside it, see \<open>wrapIndex_no_overflow\<close>), a
  \<open>size_t\<close> loop counter a \<open>nat\<close>. An index outside an array or a string is
  undefined behaviour in C++; it is the error value \<open>OutOfBounds\<close> here.
\<close>

subsection \<open>Constants (namespace \<open>PlayfairConstants\<close>)\<close>

definition GRID_SIZE :: int where
  "GRID_SIZE = 5"

definition GRID_TOTAL_CELLS :: nat where
  "GRID_TOTAL_CELLS = 25"

definition DEFAULT_KEY :: string where
  "DEFAULT_KEY = ''KEYWORD''"

definition PADDING_CHAR :: char where
  "PADDING_CHAR = CHR ''X''"

definition FIRST_LETTER :: char where
  "FIRST_LETTER = CHR ''A''"

definition LAST_LETTER :: char where
  "LAST_LETTER = CHR ''Z''"

definition ENCRYPT_DIRECTION :: int where
  "ENCRYPT_DIRECTION = 1"

definition DECRYPT_DIRECTION :: int where
  "DECRYPT_DIRECTION = - 1"

definition ALPHABET :: string where
  "ALPHABET = ''ABCDEFGHIJKLMNOPQRSTUVWXYZ''"

subsection \<open>Characters and integers\<close>

text \<open>
  \<open>std::toupper\<close> in the "C" locale (the program never sets another one), applied to
  the byte read as \<open>unsigned char\<close>: the 26 lower-case letters move down by 32, every
  other byte is unchanged.
\<close>

definition toupper :: "char \<Rightarrow> char" where
  "toupper ch =
     (let n = (of_char ch :: nat)
      in if 97 \<le> n \<and> n \<le> 122 then char_of (n - 32) else ch)"

text \<open>
  The value of a \<open>char\<close> in a comparison. \<open>char\<close> is signed with g++ on x86, which
  \<open>build.sh\<close> uses: bytes from 128 up are negative.
\<close>

definition char_value :: "char \<Rightarrow> int" where
  "char_value ch = (let n = int (of_char ch) in if n < 128 then n else n - 256)"

text \<open>The test \<open>uppercaseChar < FIRST_LETTER || uppercaseChar > LAST_LETTER\<close>.\<close>

definition outsideAlphabet :: "char \<Rightarrow> bool" where
  "outsideAlphabet uppercaseChar \<longleftrightarrow>
     char_value uppercaseChar < char_value FIRST_LETTER \<or>
     char_value uppercaseChar > char_value LAST_LETTER"

text \<open>The C++ remainder \<open>a % b\<close>: the quotient is truncated, the sign is that of \<open>a\<close>.\<close>

definition c_rem :: "int \<Rightarrow> int \<Rightarrow> int" where
  "c_rem a b = sgn a * (\<bar>a\<bar> mod \<bar>b\<bar>)"

subsection \<open>The object\<close>

datatype error = OutOfBounds

type_synonym grid = "char list list"

record playfair =
  processedText :: string
  cipherGrid :: grid

text \<open>
  \<open>std::array<std::array<char, 5>, 5>\<close>: five rows of five cells. The type fixes the
  shape; on lists it is a predicate.
\<close>

definition wf_grid :: "grid \<Rightarrow> bool" where
  "wf_grid g \<longleftrightarrow> length g = 5 \<and> list_all (\<lambda>row. length row = 5) g"

definition cells :: "grid \<Rightarrow> char set" where
  "cells g = set (concat g)"

text \<open>A freshly constructed object: the empty string and the value-initialised grid.\<close>

definition newCipher :: playfair where
  "newCipher = \<lparr>processedText = [], cipherGrid = replicate 5 (replicate 5 (CHR 0x00))\<rparr>"

subsection \<open>\<open>getCharacterAtPosition\<close>\<close>

definition wrapIndex :: "int \<Rightarrow> int" where
  "wrapIndex i = c_rem (c_rem i GRID_SIZE + GRID_SIZE) GRID_SIZE"

text \<open>\<open>cipherGrid[row][column]\<close> on the 5 by 5 array.\<close>

definition gridIndex :: "grid \<Rightarrow> int \<Rightarrow> int \<Rightarrow> error + char" where
  "gridIndex g row column =
     (if 0 \<le> row \<and> row < GRID_SIZE \<and> 0 \<le> column \<and> column < GRID_SIZE
      then Inr (g ! nat row ! nat column)
      else Inl OutOfBounds)"

definition getCharacterAtPosition :: "grid \<Rightarrow> int \<Rightarrow> int \<Rightarrow> error + char" where
  "getCharacterAtPosition g column row =
     (let wrappedColumn = wrapIndex column;
          wrappedRow = wrapIndex row
      in gridIndex g wrappedRow wrappedColumn)"

subsection \<open>\<open>findCharacterPosition\<close>\<close>

text \<open>
  The two nested counting loops, as one function of both counters. The result is the
  pair of the output parameters \<open>(column, row)\<close>, or \<open>None\<close> for \<open>false\<close>.
\<close>

function findLoop :: "grid \<Rightarrow> char \<Rightarrow> nat \<Rightarrow> nat \<Rightarrow> (int \<times> int) option" where
  "findLoop g character rowIndex columnIndex =
     (if rowIndex < 5 then
        (if columnIndex < 5 then
           (if g ! rowIndex ! columnIndex = character
            then Some (int columnIndex, int rowIndex)
            else findLoop g character rowIndex (columnIndex + 1))
         else findLoop g character (rowIndex + 1) 0)
      else None)"
  by pat_completeness auto
termination
  by (relation "measures [\<lambda>(g, ch, r, c). 5 - r, \<lambda>(g, ch, r, c). 5 - c]") auto

definition findCharacterPosition :: "grid \<Rightarrow> char \<Rightarrow> (int \<times> int) option" where
  "findCharacterPosition g character = findLoop g character 0 0"

subsection \<open>\<open>transformDigraphPairs\<close>\<close>

text \<open>Appending two looked-up cells to the output; a failed lookup fails the whole.\<close>

definition appendCells :: "error + char \<Rightarrow> error + char \<Rightarrow> error + string" where
  "appendCells x y =
     (case x of Inl e \<Rightarrow> Inl e
      | Inr a \<Rightarrow> (case y of Inl e \<Rightarrow> Inl e | Inr b \<Rightarrow> Inr [a, b]))"

text \<open>
  The body of the loop for one pair: what it appends to \<open>transformedText\<close>. The
  \<open>continue\<close> of a pair with a letter that is not in the grid appends nothing.
\<close>

definition transformPair :: "grid \<Rightarrow> int \<Rightarrow> char \<Rightarrow> char \<Rightarrow> error + string" where
  "transformPair g shiftDirection firstChar secondChar =
     (case findCharacterPosition g firstChar of
        None \<Rightarrow> Inr []
      | Some (firstCharColumn, firstCharRow) \<Rightarrow>
         (case findCharacterPosition g secondChar of
            None \<Rightarrow> Inr []
          | Some (secondCharColumn, secondCharRow) \<Rightarrow>
             (if firstCharRow = secondCharRow then
                appendCells
                  (getCharacterAtPosition g (firstCharColumn + shiftDirection) firstCharRow)
                  (getCharacterAtPosition g (secondCharColumn + shiftDirection) secondCharRow)
              else if firstCharColumn = secondCharColumn then
                appendCells
                  (getCharacterAtPosition g firstCharColumn (firstCharRow + shiftDirection))
                  (getCharacterAtPosition g secondCharColumn (secondCharRow + shiftDirection))
              else
                appendCells
                  (getCharacterAtPosition g secondCharColumn firstCharRow)
                  (getCharacterAtPosition g firstCharColumn secondCharRow))))"

function transformLoop :: "grid \<Rightarrow> int \<Rightarrow> string \<Rightarrow> nat \<Rightarrow> string \<Rightarrow> error + string" where
  "transformLoop g shiftDirection txt index transformedText =
     (if index + 1 < length txt then
        (case transformPair g shiftDirection (txt ! index) (txt ! (index + 1)) of
           Inl e \<Rightarrow> Inl e
         | Inr two \<Rightarrow> transformLoop g shiftDirection txt (index + 2) (transformedText @ two))
      else Inr transformedText)"
  by pat_completeness auto
termination
  by (relation "measure (\<lambda>(g, d, txt, index, out). length txt - index)") auto

definition transformDigraphPairs :: "int \<Rightarrow> playfair \<Rightarrow> error + playfair" where
  "transformDigraphPairs shiftDirection s =
     (case transformLoop (cipherGrid s) shiftDirection (processedText s) 0 [] of
        Inl e \<Rightarrow> Inl e
      | Inr transformedText \<Rightarrow> Inr (s\<lparr>processedText := transformedText\<rparr>))"

subsection \<open>\<open>normalizeAndPrepareText\<close>\<close>

text \<open>The first loop: upper-case, keep the letters, apply the mapping.\<close>

fun normalizeLoop :: "bool \<Rightarrow> string \<Rightarrow> string \<Rightarrow> string" where
  "normalizeLoop shouldMapItoJ [] processed = processed"
| "normalizeLoop shouldMapItoJ (character # rest) processed =
     (let uppercaseChar = toupper character in
      if outsideAlphabet uppercaseChar then normalizeLoop shouldMapItoJ rest processed
      else if uppercaseChar = CHR ''J'' \<and> shouldMapItoJ
        then normalizeLoop shouldMapItoJ rest (processed @ [CHR ''I''])
      else if uppercaseChar = CHR ''Q'' \<and> \<not> shouldMapItoJ
        then normalizeLoop shouldMapItoJ rest processed
      else normalizeLoop shouldMapItoJ rest (processed @ [uppercaseChar]))"

text \<open>The second loop, run for encryption only: the counter moves by two.\<close>

function digraphLoop :: "string \<Rightarrow> nat \<Rightarrow> string \<Rightarrow> string" where
  "digraphLoop txt index digraphPairs =
     (if index < length txt then
        (let pushed = digraphPairs @ [txt ! index] in
         if index + 1 < length txt then
           (let padded = (if txt ! index = txt ! (index + 1)
                          then pushed @ [PADDING_CHAR] else pushed)
            in digraphLoop txt (index + 2) (padded @ [txt ! (index + 1)]))
         else digraphLoop txt (index + 2) pushed)
      else digraphPairs)"
  by pat_completeness auto
termination
  by (relation "measure (\<lambda>(txt, index, out). length txt - index)") auto

definition normalizeAndPrepareText :: "string \<Rightarrow> bool \<Rightarrow> bool \<Rightarrow> playfair \<Rightarrow> playfair" where
  "normalizeAndPrepareText inputText shouldMapItoJ isEncryption s =
     (let filtered = normalizeLoop shouldMapItoJ inputText [];
          paired = (if isEncryption then digraphLoop filtered 0 [] else filtered);
          evened = (if length paired mod 2 = 1 then paired @ [PADDING_CHAR] else paired)
      in s\<lparr>processedText := evened\<rparr>)"

subsection \<open>\<open>buildCipherGrid\<close>\<close>

text \<open>The loop over the key with the alphabet appended: first occurrences, in order.\<close>

fun uniqueLoop :: "bool \<Rightarrow> string \<Rightarrow> string \<Rightarrow> string" where
  "uniqueLoop shouldMapItoJ [] uniqueCharacters = uniqueCharacters"
| "uniqueLoop shouldMapItoJ (character # rest) uniqueCharacters =
     (let uppercaseChar = toupper character in
      if outsideAlphabet uppercaseChar then uniqueLoop shouldMapItoJ rest uniqueCharacters
      else if (uppercaseChar = CHR ''J'' \<and> shouldMapItoJ) \<or>
              (uppercaseChar = CHR ''Q'' \<and> \<not> shouldMapItoJ)
        then uniqueLoop shouldMapItoJ rest uniqueCharacters
      else if uppercaseChar \<notin> set uniqueCharacters
        then uniqueLoop shouldMapItoJ rest (uniqueCharacters @ [uppercaseChar])
      else uniqueLoop shouldMapItoJ rest uniqueCharacters)"

text \<open>
  \<open>uniqueCharacters[index]\<close>: \<open>std::string::operator[]\<close> gives the terminating null
  at \<open>index = size()\<close> and is undefined beyond.
\<close>

definition stringIndex :: "string \<Rightarrow> nat \<Rightarrow> error + char" where
  "stringIndex str index =
     (if index < length str then Inr (str ! index)
      else if index = length str then Inr (CHR 0x00)
      else Inl OutOfBounds)"

text \<open>
  The loop that fills the grid row by row. \<open>GRID_SIZE\<close> is written 5 where it divides
  or bounds a counter.
\<close>

function fillLoop :: "string \<Rightarrow> nat \<Rightarrow> grid \<Rightarrow> error + grid" where
  "fillLoop uniqueCharacters index g =
     (if index < GRID_TOTAL_CELLS then
        (case stringIndex uniqueCharacters index of
           Inl e \<Rightarrow> Inl e
         | Inr ch \<Rightarrow>
             fillLoop uniqueCharacters (index + 1)
               (g[index div 5 := (g ! (index div 5))[index mod 5 := ch]]))
      else Inr g)"
  by pat_completeness auto
termination
  by (relation "measure (\<lambda>(u, index, g). GRID_TOTAL_CELLS - index)") auto

definition buildCipherGrid :: "string \<Rightarrow> bool \<Rightarrow> playfair \<Rightarrow> error + playfair" where
  "buildCipherGrid encryptionKey shouldMapItoJ s =
     (let key1 = (if encryptionKey = [] then DEFAULT_KEY else encryptionKey);
          key2 = key1 @ ALPHABET;
          uniqueCharacters = uniqueLoop shouldMapItoJ key2 []
      in case fillLoop uniqueCharacters 0 (cipherGrid s) of
           Inl e \<Rightarrow> Inl e
         | Inr g \<Rightarrow> Inr (s\<lparr>cipherGrid := g\<rparr>))"

subsection \<open>\<open>process\<close>, without the printing\<close>

definition process :: "string \<Rightarrow> string \<Rightarrow> bool \<Rightarrow> bool \<Rightarrow> playfair \<Rightarrow> error + playfair" where
  "process encryptionKey inputText shouldMapItoJ isEncryption s =
     (case buildCipherGrid encryptionKey shouldMapItoJ s of
        Inl e \<Rightarrow> Inl e
      | Inr s1 \<Rightarrow>
          transformDigraphPairs
            (if isEncryption then ENCRYPT_DIRECTION else DECRYPT_DIRECTION)
            (normalizeAndPrepareText inputText shouldMapItoJ isEncryption s1))"

subsection \<open>The three components as functions of their inputs\<close>

text \<open>
  The specification names the methods \<open>buildGrid\<close>, \<open>normalize\<close> and \<open>transform\<close> and
  gives them their inputs as arguments. \<open>MergeJintoI\<close> is \<open>shouldMapItoJ = True\<close>,
  \<open>DropQ\<close> is \<open>shouldMapItoJ = False\<close>.
\<close>

definition MergeJintoI :: bool where
  "MergeJintoI = True"

definition DropQ :: bool where
  "DropQ = False"

definition buildGrid :: "string \<Rightarrow> bool \<Rightarrow> error + grid" where
  "buildGrid key mode = map_sum id cipherGrid (buildCipherGrid key mode newCipher)"

definition normalize :: "string \<Rightarrow> bool \<Rightarrow> bool \<Rightarrow> string" where
  "normalize inputText mode forEncryption =
     processedText (normalizeAndPrepareText inputText mode forEncryption newCipher)"

definition transform :: "string \<Rightarrow> grid \<Rightarrow> int \<Rightarrow> error + string" where
  "transform digraphs g direction =
     map_sum id processedText
       (transformDigraphPairs direction \<lparr>processedText = digraphs, cipherGrid = g\<rparr>)"

text \<open>The letter a mode removes from the alphabet.\<close>

definition excludedLetter :: "bool \<Rightarrow> char" where
  "excludedLetter mode = (if mode then CHR ''J'' else CHR ''Q'')"

subsection \<open>Notions used in the statements and proofs\<close>

text \<open>No letter stands in two cells of the grid.\<close>

definition inj_grid :: "grid \<Rightarrow> bool" where
  "inj_grid g \<longleftrightarrow>
     (\<forall>r < 5. \<forall>c < 5. \<forall>r' < 5. \<forall>c' < 5. g ! r ! c = g ! r' ! c' \<longrightarrow> r = r' \<and> c = c')"

text \<open>The transformation read pair by pair off the front of the text.\<close>

fun transformList :: "grid \<Rightarrow> int \<Rightarrow> string \<Rightarrow> error + string" where
  "transformList g d (a # b # rest) =
     (case transformPair g d a b of
        Inl e \<Rightarrow> Inl e
      | Inr two \<Rightarrow> (case transformList g d rest of Inl e \<Rightarrow> Inl e | Inr r \<Rightarrow> Inr (two @ r)))"
| "transformList g d [a] = Inr []"
| "transformList g d [] = Inr []"

text \<open>The grid whose rows are the five blocks of five of a string.\<close>

definition rowMajor :: "string \<Rightarrow> grid" where
  "rowMajor u =
     [take 5 u, take 5 (drop 5 u), take 5 (drop 10 u), take 5 (drop 15 u), take 5 (drop 20 u)]"

text \<open>The letters a mode keeps: \<open>A\<close> to \<open>Z\<close> without the excluded one.\<close>

definition permitted :: "bool \<Rightarrow> char \<Rightarrow> bool" where
  "permitted mode ch \<longleftrightarrow> \<not> outsideAlphabet ch \<and> ch \<noteq> excludedLetter mode"

text \<open>
  The normalized letter sequence in the words of the specification: upper-case every
  character, discard what is not \<open>A\<close> to \<open>Z\<close>, and apply the reduction mode (rewrite
  \<open>J\<close> to \<open>I\<close> under \<open>MergeJintoI\<close>, discard \<open>Q\<close> under \<open>DropQ\<close>).
\<close>

definition filteredLetters :: "bool \<Rightarrow> string \<Rightarrow> string" where
  "filteredLetters mode inputText =
     map (\<lambda>ch. if mode \<and> ch = CHR ''J'' then CHR ''I'' else ch)
       (filter (\<lambda>ch. \<not> outsideAlphabet ch \<and> \<not> (\<not> mode \<and> ch = CHR ''Q''))
          (map toupper inputText))"

text \<open>
  What the pairing loop computes, read off the front of the filtered text two letters at
  a time: both letters of a pair are emitted, with the padding letter between them when
  they are equal.
\<close>

fun alignedPairs :: "string \<Rightarrow> string" where
  "alignedPairs (a # b # rest) =
     (if a = b then [a, PADDING_CHAR, b] else [a, b]) @ alignedPairs rest"
| "alignedPairs [a] = [a]"
| "alignedPairs [] = []"

text \<open>A key without its letters \<open>J\<close> and \<open>j\<close>.\<close>

definition withoutJ :: "string \<Rightarrow> string" where
  "withoutJ key = filter (\<lambda>ch. toupper ch \<noteq> CHR ''J'') key"

text \<open>The plaintexts of the round-trip law: letters only, no two equal letters adjacent.\<close>

definition lettersOnly :: "string \<Rightarrow> bool" where
  "lettersOnly t = list_all (\<lambda>ch. \<not> outsideAlphabet (toupper ch)) t"

fun noEqualAdjacent :: "string \<Rightarrow> bool" where
  "noEqualAdjacent (a # b # rest) = (a \<noteq> b \<and> noEqualAdjacent (b # rest))"
| "noEqualAdjacent [a] = True"
| "noEqualAdjacent [] = True"

section \<open>Lemmas\<close>

subsection \<open>Characters and the alphabet\<close>

lemma outsideAlphabet_iff: "outsideAlphabet c \<longleftrightarrow> \<not> (65 \<le> (of_char c :: nat) \<and> (of_char c :: nat) \<le> 90)"
proof -
  define n where "n = (of_char c :: nat)"
  have "n < 256" by (simp add: n_def)
  then have "(let m = int n in if m < 128 then m else m - 256) < 65 \<or>
     (let m = int n in if m < 128 then m else m - 256) > 90 \<longleftrightarrow> \<not> (65 \<le> n \<and> n \<le> 90)"
    by (simp add: Let_def) arith
  then show ?thesis
    unfolding outsideAlphabet_def char_value_def FIRST_LETTER_def LAST_LETTER_def n_def
    by simp
qed

lemma toupper_inside: "\<not> outsideAlphabet c \<Longrightarrow> toupper c = c"
  by (simp add: outsideAlphabet_iff toupper_def)

lemma inside_set: "\<not> outsideAlphabet c \<longleftrightarrow> c \<in> set ALPHABET"
proof
  assume "\<not> outsideAlphabet c"
  then have "(of_char c :: nat) \<in> {65..<91}" by (simp add: outsideAlphabet_iff)
  then have "(of_char c :: nat) \<in> set [65..<91]" by (simp only: set_upt)
  then have "char_of (of_char c :: nat) \<in> char_of ` set [65..<91::nat]" by (rule imageI)
  then have "c \<in> set (map char_of [65..<91::nat])" by (simp only: set_map char_of_char)
  also have "map char_of [65..<91::nat] = ALPHABET" unfolding ALPHABET_def by code_simp
  finally show "c \<in> set ALPHABET" .
next
  assume "c \<in> set ALPHABET"
  moreover have "list_all (\<lambda>d. \<not> outsideAlphabet d) ALPHABET" by code_simp
  ultimately show "\<not> outsideAlphabet c"
    by (simp add: list_all_iff)
qed

lemma permitted_set: "{c. permitted m c} = set ALPHABET - {excludedLetter m}"
  by (auto simp: permitted_def inside_set)

lemma excluded_in_alphabet: "excludedLetter m \<in> set ALPHABET"
  by (simp add: excludedLetter_def ALPHABET_def)

lemma distinct_alphabet: "distinct ALPHABET"
  by (simp add: ALPHABET_def)

lemma card_permitted: "card {c. permitted m c} = 25"
proof -
  have "card (set ALPHABET) = 26"
    using distinct_card [OF distinct_alphabet] by (simp add: ALPHABET_def)
  then show ?thesis
    unfolding permitted_set using excluded_in_alphabet [of m] by simp
qed

lemma permitted_toupper: "permitted m c \<Longrightarrow> toupper c = c"
  by (simp add: permitted_def toupper_inside)

lemma permitted_padding: "permitted m PADDING_CHAR"
  unfolding permitted_def inside_set
  by (simp add: PADDING_CHAR_def ALPHABET_def excludedLetter_def)

lemma permitted_I: "permitted True (CHR ''I'')"
  unfolding permitted_def inside_set
  by (simp add: ALPHABET_def excludedLetter_def)

subsection \<open>uniqueLoop\<close>

lemma uniqueLoop_set:
  "set (uniqueLoop m t acc) = set acc \<union> {c. permitted m c \<and> c \<in> toupper ` set t}"
  by (induction t arbitrary: acc) (auto simp: Let_def permitted_def excludedLetter_def)

lemma uniqueLoop_distinct: "distinct acc \<Longrightarrow> distinct (uniqueLoop m t acc)"
  by (induction t arbitrary: acc) (auto simp: Let_def)

lemma uniqueLoop_alphabet_set:
  "set (uniqueLoop m (key @ ALPHABET) []) = {c. permitted m c}"
proof -
  have "permitted m c \<Longrightarrow> c \<in> toupper ` set (key @ ALPHABET)" for c
  proof -
    assume p: "permitted m c"
    then have "c \<in> set ALPHABET" by (simp add: permitted_def inside_set)
    moreover from p have "toupper c = c" by (rule permitted_toupper)
    ultimately show ?thesis by (metis UnCI imageI set_append)
  qed
  then show ?thesis unfolding uniqueLoop_set by auto
qed

lemma uniqueLoop_alphabet_length: "length (uniqueLoop m (key @ ALPHABET) []) = 25"
proof -
  have "distinct (uniqueLoop m (key @ ALPHABET) [])" by (simp add: uniqueLoop_distinct)
  from distinct_card [OF this] show ?thesis
    by (simp add: uniqueLoop_alphabet_set card_permitted)
qed

lemma uniqueLoop_withoutJ:
  "uniqueLoop True (withoutJ key @ rest) acc = uniqueLoop True (key @ rest) acc"
  by (induction key arbitrary: acc) (auto simp: withoutJ_def Let_def)

lemma uniqueLoop_no_letters:
  "\<forall>c \<in> set key. outsideAlphabet (toupper c) \<Longrightarrow>
     uniqueLoop m (key @ rest) acc = uniqueLoop m rest acc"
  by (induction key arbitrary: acc) (auto simp: Let_def)

subsection \<open>Searching the grid\<close>

declare findLoop.simps [simp del]

lemma findLoop_Some:
  "findLoop g ch r c = Some (x, y) \<Longrightarrow>
     \<exists>r' c'. x = int c' \<and> y = int r' \<and> r' < 5 \<and> c' < 5 \<and> g ! r' ! c' = ch"
proof (induction g ch r c rule: findLoop.induct)
  case (1 g ch r c)
  show ?case
  proof (cases "r < 5")
    case False
    with "1.prems" show ?thesis by (simp add: findLoop.simps [of g ch r c])
  next
    case r: True
    show ?thesis
    proof (cases "c < 5")
      case False
      with r "1.prems" have "findLoop g ch (r + 1) 0 = Some (x, y)"
        by (simp add: findLoop.simps [of g ch r c])
      with "1.IH"(2) r False show ?thesis by blast
    next
      case c: True
      show ?thesis
      proof (cases "g ! r ! c = ch")
        case True
        with r c "1.prems" have "x = int c" "y = int r"
          by (simp_all add: findLoop.simps [of g ch r c])
        with r c True show ?thesis by blast
      next
        case False
        with r c "1.prems" have "findLoop g ch r (c + 1) = Some (x, y)"
          by (simp add: findLoop.simps [of g ch r c])
        with "1.IH"(1) r c False show ?thesis by blast
      qed
    qed
  qed
qed

lemma findLoop_None:
  "findLoop g ch r c = None \<Longrightarrow> r' < 5 \<Longrightarrow> c' < 5 \<Longrightarrow> r < r' \<or> (r = r' \<and> c \<le> c') \<Longrightarrow>
     g ! r' ! c' \<noteq> ch"
proof (induction g ch r c rule: findLoop.induct)
  case (1 g ch r c)
  from "1.prems" have r: "r < 5" by auto
  show ?case
  proof (cases "c < 5")
    case False
    with r "1.prems" have n: "findLoop g ch (r + 1) 0 = None"
      by (simp add: findLoop.simps [of g ch r c])
    from False "1.prems" have "r + 1 < r' \<or> (r + 1 = r' \<and> 0 \<le> c')" by auto
    with "1.IH"(2) [OF r False n "1.prems"(2,3)] show ?thesis by blast
  next
    case c: True
    with r "1.prems"(1) have ne: "g ! r ! c \<noteq> ch"
      by (auto simp: findLoop.simps [of g ch r c] split: if_splits)
    with r c "1.prems"(1) have n: "findLoop g ch r (c + 1) = None"
      by (simp add: findLoop.simps [of g ch r c])
    show ?thesis
    proof (cases "r = r' \<and> c = c'")
      case True
      with ne show ?thesis by simp
    next
      case False
      with "1.prems" have "r < r' \<or> (r = r' \<and> c + 1 \<le> c')" by auto
      with "1.IH"(1) [OF r c ne n "1.prems"(2,3)] show ?thesis by blast
    qed
  qed
qed

lemma find_None_iff:
  "findCharacterPosition g ch = None \<longleftrightarrow> (\<forall>r < 5. \<forall>c < 5. g ! r ! c \<noteq> ch)"
proof
  assume "findCharacterPosition g ch = None"
  then show "\<forall>r < 5. \<forall>c < 5. g ! r ! c \<noteq> ch"
    unfolding findCharacterPosition_def using findLoop_None [of g ch 0 0] by auto
next
  assume a: "\<forall>r < 5. \<forall>c < 5. g ! r ! c \<noteq> ch"
  show "findCharacterPosition g ch = None"
  proof (rule ccontr)
    assume "findCharacterPosition g ch \<noteq> None"
    then obtain x y where "findLoop g ch 0 0 = Some (x, y)"
      unfolding findCharacterPosition_def by auto
    from findLoop_Some [OF this] a show False by blast
  qed
qed

lemma cells_nth:
  assumes "wf_grid g"
  shows "cells g = {g ! r ! c | r c. r < 5 \<and> c < 5}"
proof -
  from assms have len: "length g = 5" and rows: "\<And>r. r < 5 \<Longrightarrow> length (g ! r) = 5"
    by (auto simp: wf_grid_def list_all_length)
  show ?thesis
  proof (rule set_eqI)
    fix x
    have "x \<in> cells g \<longleftrightarrow> (\<exists>row \<in> set g. x \<in> set row)"
      by (simp add: cells_def)
    also have "\<dots> \<longleftrightarrow> (\<exists>r < length g. x \<in> set (g ! r))"
      by (metis in_set_conv_nth)
    also have "\<dots> \<longleftrightarrow> (\<exists>r < 5. \<exists>c < 5. x = g ! r ! c)"
      using len rows by (metis in_set_conv_nth)
    finally show "x \<in> cells g \<longleftrightarrow> x \<in> {g ! r ! c | r c. r < 5 \<and> c < 5}" by blast
  qed
qed

lemma find_None_cells:
  "wf_grid g \<Longrightarrow> findCharacterPosition g ch = None \<longleftrightarrow> ch \<notin> cells g"
  by (auto simp: find_None_iff cells_nth)

subsection \<open>Wrap-around and one pair\<close>

lemma c_rem_5: "c_rem i 5 = (if 0 \<le> i then i mod 5 else - ((- i) mod 5))"
  by (simp add: c_rem_def sgn_if)

lemma wrapIndex_mod: "wrapIndex i = i mod 5"
proof (cases "0 \<le> i")
  case True
  then show ?thesis by (simp add: wrapIndex_def GRID_SIZE_def c_rem_5)
next
  case False
  have "0 \<le> - ((- i) mod 5) + 5"
    using pos_mod_bound [of 5 "- i"] by linarith
  with False show ?thesis
    by (simp add: wrapIndex_def GRID_SIZE_def c_rem_5 mod_minus_eq)
qed

lemma wrapIndex_no_overflow: "- 4 \<le> c_rem i GRID_SIZE \<and> c_rem i GRID_SIZE + GRID_SIZE \<le> 9"
proof -
  have "0 \<le> i mod 5" "i mod 5 < 5" "0 \<le> (- i) mod 5" "(- i) mod 5 < 5" by simp_all
  then show ?thesis by (auto simp: GRID_SIZE_def c_rem_5)
qed

lemma getCharacterAtPosition_eq:
  "getCharacterAtPosition g column row = Inr (g ! nat (row mod 5) ! nat (column mod 5))"
  by (simp add: getCharacterAtPosition_def gridIndex_def wrapIndex_mod GRID_SIZE_def)

lemma nth_in_cells: "wf_grid g \<Longrightarrow> r < 5 \<Longrightarrow> c < 5 \<Longrightarrow> g ! r ! c \<in> cells g"
  by (auto simp: cells_nth)

lemma nat_mod5_less: "nat (i mod 5) < 5"
  by simp

lemma find_cell:
  assumes "inj_grid g" "r < 5" "c < 5"
  shows "findCharacterPosition g (g ! r ! c) = Some (int c, int r)"
proof (cases "findCharacterPosition g (g ! r ! c)")
  case None
  with assms show ?thesis by (auto simp: find_None_iff)
next
  case (Some p)
  obtain x y where p: "p = (x, y)" by (cases p)
  with Some have "findLoop g (g ! r ! c) 0 0 = Some (x, y)"
    by (simp add: findCharacterPosition_def)
  from findLoop_Some [OF this] obtain r' c'
    where "x = int c'" "y = int r'" "r' < 5" "c' < 5" "g ! r' ! c' = g ! r ! c" by blast
  with assms have "r' = r \<and> c' = c" unfolding inj_grid_def by blast
  with Some p \<open>x = int c'\<close> \<open>y = int r'\<close> show ?thesis by simp
qed

lemma find_Some_cell:
  assumes "findCharacterPosition g ch = Some (x, y)"
  shows "\<exists>r c. x = int c \<and> y = int r \<and> r < 5 \<and> c < 5 \<and> g ! r ! c = ch"
  using assms findLoop_Some [of g ch 0 0 x y] by (simp add: findCharacterPosition_def)

text \<open>What one pair becomes when both letters have been found.\<close>

lemma transformPair_found:
  assumes "findCharacterPosition g a = Some (int c1, int r1)"
    and "findCharacterPosition g b = Some (int c2, int r2)"
  shows "transformPair g d a b = Inr
     (if r1 = r2 then [g ! r1 ! nat ((int c1 + d) mod 5), g ! r2 ! nat ((int c2 + d) mod 5)]
      else if c1 = c2 then [g ! nat ((int r1 + d) mod 5) ! c1, g ! nat ((int r2 + d) mod 5) ! c2]
      else [g ! r1 ! c2, g ! r2 ! c1])"
proof -
  from assms(1) have "r1 < 5" "c1 < 5" using find_Some_cell by fastforce+
  moreover from assms(2) have "r2 < 5" "c2 < 5" using find_Some_cell by fastforce+
  ultimately show ?thesis
    by (simp add: transformPair_def assms getCharacterAtPosition_eq appendCells_def)
qed

lemma transformPair_absent:
  "findCharacterPosition g a = None \<or> findCharacterPosition g b = None \<Longrightarrow>
     transformPair g d a b = Inr []"
  by (auto simp: transformPair_def split: option.splits)

lemma transformPair_total:
  assumes "wf_grid g"
  shows "\<exists>two. transformPair g d a b = Inr two \<and> set two \<subseteq> cells g \<and>
           (length two = 0 \<or> length two = 2) \<and>
           (length two = 2 \<longleftrightarrow> a \<in> cells g \<and> b \<in> cells g)"
proof (cases "findCharacterPosition g a = None \<or> findCharacterPosition g b = None")
  case True
  with assms show ?thesis
    using transformPair_absent [OF True, of d] by (auto simp: find_None_cells)
next
  case False
  then obtain x1 y1 x2 y2 where f: "findCharacterPosition g a = Some (x1, y1)"
    "findCharacterPosition g b = Some (x2, y2)" by auto
  from find_Some_cell [OF f(1)] obtain r1 c1
    where 1: "x1 = int c1" "y1 = int r1" "r1 < 5" "c1 < 5" by blast
  from find_Some_cell [OF f(2)] obtain r2 c2
    where 2: "x2 = int c2" "y2 = int r2" "r2 < 5" "c2 < 5" by blast
  from False assms have "a \<in> cells g" "b \<in> cells g" by (auto simp: find_None_cells)
  then show ?thesis
    using transformPair_found [OF f [unfolded 1 2], of d] 1 2 assms
    by (simp add: nth_in_cells)
qed

declare transformLoop.simps [simp del]

lemma transformLoop_transformList:
  "transformLoop g d t index out =
     (case transformList g d (drop index t) of Inl e \<Rightarrow> Inl e | Inr r \<Rightarrow> Inr (out @ r))"
proof (induction g d t index out rule: transformLoop.induct)
  case (1 g d t index out)
  show ?case
  proof (cases "index + 1 < length t")
    case True
    then have dr: "drop index t = t ! index # t ! (index + 1) # drop (index + 2) t"
      by (metis Cons_nth_drop_Suc Suc_eq_plus1 add_2_eq_Suc' add_lessD1)
    show ?thesis
    proof (cases "transformPair g d (t ! index) (t ! (index + 1))")
      case (Inl e)
      with True dr show ?thesis by (simp add: transformLoop.simps [of g d t index out])
    next
      case (Inr two)
      with True dr "1.IH" [OF True Inr] show ?thesis
        by (simp add: transformLoop.simps [of g d t index out] split: sum.splits)
    qed
  next
    case False
    then have "length (drop index t) \<le> 1" by simp
    then have "drop index t = [] \<or> (\<exists>x. drop index t = [x])"
      by (cases "drop index t") auto
    with False show ?thesis
      by (auto simp: transformLoop.simps [of g d t index out])
  qed
qed

lemma transform_transformList: "transform t g d = transformList g d t"
  by (simp add: transform_def transformDigraphPairs_def transformLoop_transformList
      split: sum.splits)

subsection \<open>Encrypting and decrypting a pair\<close>

lemma shift_inj:
  assumes "r1 < 5" "r2 < 5" "r1 \<noteq> r2"
  shows "nat ((int r1 + 1) mod 5) \<noteq> nat ((int r2 + 1) mod 5)"
proof
  assume "nat ((int r1 + 1) mod 5) = nat ((int r2 + 1) mod 5)"
  then have "(int r1 + 1) mod 5 = (int r2 + 1) mod 5" by simp
  then have "((int r1 + 1) mod 5 - 1) mod 5 = ((int r2 + 1) mod 5 - 1) mod 5" by simp
  then have "int r1 mod 5 = int r2 mod 5" by (simp add: mod_simps)
  with assms show False by simp
qed

lemma pair_roundtrip:
  assumes wf: "wf_grid g" and inj: "inj_grid g" and a: "a \<in> cells g" and b: "b \<in> cells g"
  shows "\<exists>x y. transformPair g 1 a b = Inr [x, y] \<and> x \<in> cells g \<and> y \<in> cells g \<and>
           transformPair g (- 1) x y = Inr [a, b]"
proof -
  from a wf obtain r1 c1 where 1: "a = g ! r1 ! c1" "r1 < 5" "c1 < 5"
    by (auto simp: cells_nth)
  from b wf obtain r2 c2 where 2: "b = g ! r2 ! c2" "r2 < 5" "c2 < 5"
    by (auto simp: cells_nth)
  have fa: "findCharacterPosition g a = Some (int c1, int r1)"
    using find_cell [OF inj 1(2,3)] 1(1) by simp
  have fb: "findCharacterPosition g b = Some (int c2, int r2)"
    using find_cell [OF inj 2(2,3)] 2(1) by simp
  note enc = transformPair_found [OF fa fb, of 1]
  consider (row) "r1 = r2" | (col) "r1 \<noteq> r2" "c1 = c2" | (rect) "r1 \<noteq> r2" "c1 \<noteq> c2"
    by blast
  then show ?thesis
  proof cases
    case row
    let ?c1 = "nat ((int c1 + 1) mod 5)" and ?c2 = "nat ((int c2 + 1) mod 5)"
    have lt: "?c1 < 5" "?c2 < 5" by simp_all
    have fx: "findCharacterPosition g (g ! r1 ! ?c1) = Some (int ?c1, int r1)"
      by (rule find_cell [OF inj 1(2) lt(1)])
    have fy: "findCharacterPosition g (g ! r2 ! ?c2) = Some (int ?c2, int r2)"
      by (rule find_cell [OF inj 2(2) lt(2)])
    have "transformPair g (- 1) (g ! r1 ! ?c1) (g ! r2 ! ?c2) = Inr [a, b]"
      using transformPair_found [OF fx fy, of "- 1"] row 1 2
      by (simp add: mod_simps)
    moreover have "transformPair g 1 a b = Inr [g ! r1 ! ?c1, g ! r2 ! ?c2]"
      using enc row by simp
    ultimately show ?thesis
      using wf 1 2 lt by (simp add: nth_in_cells)
  next
    case col
    let ?r1 = "nat ((int r1 + 1) mod 5)" and ?r2 = "nat ((int r2 + 1) mod 5)"
    have lt: "?r1 < 5" "?r2 < 5" by simp_all
    have ne: "?r1 \<noteq> ?r2" by (rule shift_inj [OF 1(2) 2(2) col(1)])
    have fx: "findCharacterPosition g (g ! ?r1 ! c1) = Some (int c1, int ?r1)"
      by (rule find_cell [OF inj lt(1) 1(3)])
    have fy: "findCharacterPosition g (g ! ?r2 ! c2) = Some (int c2, int ?r2)"
      by (rule find_cell [OF inj lt(2) 2(3)])
    have "transformPair g (- 1) (g ! ?r1 ! c1) (g ! ?r2 ! c2) = Inr [a, b]"
      using transformPair_found [OF fx fy, of "- 1"] ne col 1 2
      by (simp add: mod_simps)
    moreover have "transformPair g 1 a b = Inr [g ! ?r1 ! c1, g ! ?r2 ! c2]"
      using enc col by simp
    ultimately show ?thesis
      using wf 1 2 lt by (simp add: nth_in_cells)
  next
    case rect
    have fx: "findCharacterPosition g (g ! r1 ! c2) = Some (int c2, int r1)"
      by (rule find_cell [OF inj 1(2) 2(3)])
    have fy: "findCharacterPosition g (g ! r2 ! c1) = Some (int c1, int r2)"
      by (rule find_cell [OF inj 2(2) 1(3)])
    have "transformPair g (- 1) (g ! r1 ! c2) (g ! r2 ! c1) = Inr [a, b]"
      using transformPair_found [OF fx fy, of "- 1"] rect 1 2 by simp
    moreover have "transformPair g 1 a b = Inr [g ! r1 ! c2, g ! r2 ! c1]"
      using enc rect by simp
    ultimately show ?thesis
      using wf 1 2 by (simp add: nth_in_cells)
  qed
qed

lemma list_roundtrip:
  assumes wf: "wf_grid g" and inj: "inj_grid g"
  shows "set t \<subseteq> cells g \<Longrightarrow> even (length t) \<Longrightarrow>
     \<exists>ct. transformList g 1 t = Inr ct \<and> set ct \<subseteq> cells g \<and> length ct = length t \<and>
          transformList g (- 1) ct = Inr t"
proof (induction t rule: induct_list012)
  case 1
  show ?case by simp
next
  case (2 x)
  then show ?case by simp
next
  case (3 a b rest)
  from "3.prems" have "a \<in> cells g" "b \<in> cells g" by simp_all
  from pair_roundtrip [OF wf inj this] obtain x y
    where p: "transformPair g 1 a b = Inr [x, y]" "x \<in> cells g" "y \<in> cells g"
      "transformPair g (- 1) x y = Inr [a, b]" by blast
  from "3.prems" have "set rest \<subseteq> cells g" "even (length rest)" by simp_all
  from "3.IH"(1) [OF this] obtain cr
    where r: "transformList g 1 rest = Inr cr" "set cr \<subseteq> cells g" "length cr = length rest"
      "transformList g (- 1) cr = Inr rest" by blast
  from p r show ?case by simp
qed

subsection \<open>Filling the grid\<close>

declare fillLoop.simps [simp del]

lemma wf_grid_nth: "wf_grid g \<Longrightarrow> r < 5 \<Longrightarrow> length (g ! r) = 5"
  by (simp add: wf_grid_def list_all_length)

lemma wf_grid_update:
  assumes "wf_grid g" "r < 5"
  shows "wf_grid (g[r := (g ! r)[c := ch]])"
  using assms unfolding wf_grid_def list_all_length
  by (auto simp: nth_list_update)

lemma cell_update:
  assumes "wf_grid g" "i < 25" "k < 25"
  shows "g[i div 5 := (g ! (i div 5))[i mod 5 := ch]] ! (k div 5) ! (k mod 5) =
           (if k = i then ch else g ! (k div 5) ! (k mod 5))"
proof -
  from assms have r: "i div 5 < 5" "k div 5 < 5" by simp_all
  from assms(1) have len: "length g = 5" by (simp add: wf_grid_def)
  have rowlen: "length (g ! (i div 5)) = 5" by (rule wf_grid_nth [OF assms(1) r(1)])
  have "k = i \<longleftrightarrow> k div 5 = i div 5 \<and> k mod 5 = i mod 5"
    by (metis div_mult_mod_eq)
  then show ?thesis
    using r len rowlen by (auto simp: nth_list_update)
qed

lemma fillLoop_cells:
  "wf_grid g \<Longrightarrow> 25 \<le> length u \<Longrightarrow>
     \<exists>g'. fillLoop u index g = Inr g' \<and> wf_grid g' \<and>
       (\<forall>k < 25. g' ! (k div 5) ! (k mod 5) =
          (if index \<le> k then u ! k else g ! (k div 5) ! (k mod 5)))"
proof (induction u index g rule: fillLoop.induct)
  case (1 u index g)
  show ?case
  proof (cases "index < 25")
    case False
    with "1.prems" show ?thesis
      by (simp add: fillLoop.simps [of u index g] GRID_TOTAL_CELLS_def)
  next
    case True
    let ?g1 = "g[index div 5 := (g ! (index div 5))[index mod 5 := u ! index]]"
    from True "1.prems" have si: "stringIndex u index = Inr (u ! index)"
      by (simp add: stringIndex_def)
    from True have lt: "index < GRID_TOTAL_CELLS" by (simp add: GRID_TOTAL_CELLS_def)
    from True "1.prems" have wf1: "wf_grid ?g1" by (simp add: wf_grid_update)
    from "1.IH" [OF lt si wf1 "1.prems"(2)] obtain g'
      where g': "fillLoop u (index + 1) ?g1 = Inr g'" "wf_grid g'"
        "\<forall>k < 25. g' ! (k div 5) ! (k mod 5) =
           (if index + 1 \<le> k then u ! k else ?g1 ! (k div 5) ! (k mod 5))" by blast
    have "fillLoop u index g = Inr g'"
      using lt si g'(1) by (simp add: fillLoop.simps [of u index g])
    moreover have "g' ! (k div 5) ! (k mod 5) =
          (if index \<le> k then u ! k else g ! (k div 5) ! (k mod 5))" if "k < 25" for k
    proof (cases "k = index")
      case True
      with g'(3) that cell_update [OF "1.prems"(1) \<open>index < 25\<close> that, of "u ! index"]
      show ?thesis by simp
    next
      case False
      then have "index + 1 \<le> k \<longleftrightarrow> index \<le> k" by arith
      with False g'(3) that cell_update [OF "1.prems"(1) \<open>index < 25\<close> that, of "u ! index"]
      show ?thesis by simp
    qed
    ultimately show ?thesis using g'(2) by blast
  qed
qed

lemma rowMajor_nth:
  assumes "25 \<le> length u" "r < 5" "c < 5"
  shows "rowMajor u ! r ! c = u ! (r * 5 + c)"
proof -
  from assms(2) consider "r = 0" | "r = 1" | "r = 2" | "r = 3" | "r = 4" by linarith
  then show ?thesis
    using assms(1,3) by cases (simp_all add: rowMajor_def)
qed

lemma wf_rowMajor: "25 \<le> length u \<Longrightarrow> wf_grid (rowMajor u)"
  by (simp add: wf_grid_def rowMajor_def)

lemma concat_rowMajor: "length u = 25 \<Longrightarrow> concat (rowMajor u) = u"
proof -
  assume len: "length u = 25"
  have step: "take n u @ take 5 (drop n u) = take (n + 5) u" for n
    by (simp add: take_add)
  have "concat (rowMajor u) =
      (((take 5 u @ take 5 (drop 5 u)) @ take 5 (drop 10 u)) @ take 5 (drop 15 u)) @ take 5 (drop 20 u)"
    by (simp add: rowMajor_def)
  also have "\<dots> = take 25 u"
    using step [of 5] step [of 10] step [of 15] step [of 20] by simp
  finally show ?thesis using len by simp
qed

lemma wf_grid_eqI:
  assumes "wf_grid g" "wf_grid h"
    and "\<And>k. k < 25 \<Longrightarrow> g ! (k div 5) ! (k mod 5) = h ! (k div 5) ! (k mod 5)"
  shows "g = h"
proof (rule nth_equalityI)
  from assms(1,2) show "length g = length h" by (simp add: wf_grid_def)
next
  fix r assume "r < length g"
  with assms(1) have r: "r < 5" by (simp add: wf_grid_def)
  show "g ! r = h ! r"
  proof (rule nth_equalityI)
    from r assms(1,2) show "length (g ! r) = length (h ! r)" by (simp add: wf_grid_nth)
  next
    fix c assume "c < length (g ! r)"
    with r assms(1) have c: "c < 5" by (simp add: wf_grid_nth)
    with r have "r * 5 + c < 25" by simp
    from assms(3) [OF this] c show "g ! r ! c = h ! r ! c" by simp
  qed
qed

lemma fillLoop_rowMajor:
  assumes "wf_grid g" "25 \<le> length u"
  shows "fillLoop u 0 g = Inr (rowMajor u)"
proof -
  from fillLoop_cells [OF assms, of 0] obtain g'
    where g': "fillLoop u 0 g = Inr g'" "wf_grid g'"
      "\<forall>k < 25. g' ! (k div 5) ! (k mod 5) = u ! k" by auto
  have "g' = rowMajor u"
  proof (rule wf_grid_eqI [OF g'(2) wf_rowMajor [OF assms(2)]])
    fix k :: nat assume k: "k < 25"
    then have "rowMajor u ! (k div 5) ! (k mod 5) = u ! (k div 5 * 5 + k mod 5)"
      by (intro rowMajor_nth [OF assms(2)]) simp_all
    with g'(3) k show "g' ! (k div 5) ! (k mod 5) = rowMajor u ! (k div 5) ! (k mod 5)"
      by simp
  qed
  with g'(1) show ?thesis by simp
qed

lemma inj_rowMajor:
  assumes "distinct u" "length u = 25"
  shows "inj_grid (rowMajor u)"
  unfolding inj_grid_def
proof (intro allI impI)
  fix r c r' c' :: nat
  assume b: "r < 5" "c < 5" "r' < 5" "c' < 5"
    and eq: "rowMajor u ! r ! c = rowMajor u ! r' ! c'"
  from b assms(2) have "u ! (r * 5 + c) = u ! (r' * 5 + c')"
    using eq by (simp add: rowMajor_nth)
  moreover from b assms(2) have "r * 5 + c < length u" "r' * 5 + c' < length u" by simp_all
  ultimately have "r * 5 + c = r' * 5 + c'"
    using assms(1) by (simp add: nth_eq_iff_index_eq)
  then have "(r * 5 + c) div 5 = (r' * 5 + c') div 5" "(r * 5 + c) mod 5 = (r' * 5 + c') mod 5"
    by simp_all
  with b show "r = r' \<and> c = c'" by simp
qed

lemma cells_rowMajor: "length u = 25 \<Longrightarrow> cells (rowMajor u) = set u"
  by (simp add: cells_def concat_rowMajor)

lemma wf_newCipher: "wf_grid (cipherGrid newCipher)"
  by (simp add: newCipher_def wf_grid_def list_all_length)

text \<open>What \<open>buildCipherGrid\<close> leaves in the object, for any key and any grid before.\<close>

lemma buildCipherGrid_eq:
  assumes "wf_grid (cipherGrid s)"
  shows "buildCipherGrid key m s =
     Inr (s\<lparr>cipherGrid :=
       rowMajor (uniqueLoop m ((if key = [] then DEFAULT_KEY else key) @ ALPHABET) [])\<rparr>)"
  using fillLoop_rowMajor [OF assms, of "uniqueLoop m ((if key = [] then DEFAULT_KEY else key) @ ALPHABET) []"]
  by (simp add: buildCipherGrid_def Let_def uniqueLoop_alphabet_length)

lemma buildGrid_eq:
  "buildGrid key m =
     Inr (rowMajor (uniqueLoop m ((if key = [] then DEFAULT_KEY else key) @ ALPHABET) []))"
  by (simp add: buildGrid_def buildCipherGrid_eq [OF wf_newCipher])

subsection \<open>Normalization\<close>

declare digraphLoop.simps [simp del]

lemma normalizeLoop_filteredLetters:
  "normalizeLoop m t acc = acc @ filteredLetters m t"
  by (induction t arbitrary: acc) (auto simp: filteredLetters_def Let_def)

lemma digraphLoop_alignedPairs:
  "digraphLoop t index acc = acc @ alignedPairs (drop index t)"
proof (induction t index acc rule: digraphLoop.induct)
  case (1 t index acc)
  show ?case
  proof (cases "index + 1 < length t")
    case True
    then have dr: "drop index t = t ! index # t ! (index + 1) # drop (index + 2) t"
      by (metis Cons_nth_drop_Suc Suc_eq_plus1 add_2_eq_Suc' add_lessD1)
    from True have lt: "index < length t" by simp
    from "1.IH"(1) [OF lt refl True refl] True lt dr show ?thesis
      by (simp add: digraphLoop.simps [of t index acc])
  next
    case False
    show ?thesis
    proof (cases "index < length t")
      case lt: True
      with False have dr: "drop index t = [t ! index]"
        by (metis Cons_nth_drop_Suc Suc_eq_plus1 drop_all not_less)
      from "1.IH"(2) [OF lt refl False] False lt dr show ?thesis
        by (simp add: digraphLoop.simps [of t index acc])
    next
      case False
      then show ?thesis by (simp add: digraphLoop.simps [of t index acc])
    qed
  qed
qed

lemma normalize_eq:
  "normalize t m e =
     (let paired = (if e then alignedPairs (filteredLetters m t) else filteredLetters m t)
      in if odd (length paired) then paired @ [PADDING_CHAR] else paired)"
  by (simp add: normalize_def normalizeAndPrepareText_def normalizeLoop_filteredLetters
      digraphLoop_alignedPairs Let_def odd_iff_mod_2_eq_one)

lemma filteredLetters_permitted: "c \<in> set (filteredLetters m t) \<Longrightarrow> permitted m c"
  using permitted_I
  by (auto simp: filteredLetters_def permitted_def excludedLetter_def)

lemma filteredLetters_id: "\<forall>c \<in> set t. permitted m c \<Longrightarrow> filteredLetters m t = t"
proof (induction t)
  case Nil
  show ?case by (simp add: filteredLetters_def)
next
  case (Cons a t)
  then have "permitted m a" by simp
  then have "toupper a = a" "\<not> outsideAlphabet a" "a \<noteq> excludedLetter m"
    by (simp_all add: permitted_def toupper_inside)
  with Cons show ?case
    by (auto simp: filteredLetters_def excludedLetter_def split: if_splits)
qed

lemma alignedPairs_set: "set (alignedPairs t) \<subseteq> set t \<union> {PADDING_CHAR}"
  by (induction t rule: alignedPairs.induct) auto

lemma normalize_permitted: "c \<in> set (normalize t m e) \<Longrightarrow> permitted m c"
  using alignedPairs_set [of "filteredLetters m t"]
  by (auto simp: normalize_eq Let_def permitted_padding filteredLetters_permitted
      split: if_splits)

lemma normalize_even: "even (length (normalize t m e))"
  by (simp add: normalize_eq Let_def)

lemma normalize_id:
  assumes "\<forall>c \<in> set t. permitted m c" "even (length t)"
  shows "normalize t m False = t"
  using assms by (simp add: normalize_eq filteredLetters_id)

text \<open>The grid of a key: well formed, one cell for each permitted letter.\<close>

lemma buildGrid_props:
  "\<exists>g. buildGrid key m = Inr g \<and> wf_grid g \<and> inj_grid g \<and> cells g = {c. permitted m c}"
proof -
  let ?u = "uniqueLoop m ((if key = [] then DEFAULT_KEY else key) @ ALPHABET) []"
  have len: "length ?u = 25" by (rule uniqueLoop_alphabet_length)
  have "distinct ?u" by (simp add: uniqueLoop_distinct)
  then have "inj_grid (rowMajor ?u)" using len by (rule inj_rowMajor)
  moreover have "wf_grid (rowMajor ?u)" using len by (simp add: wf_rowMajor)
  moreover have "cells (rowMajor ?u) = {c. permitted m c}"
    using len by (simp only: cells_rowMajor uniqueLoop_alphabet_set)
  ultimately show ?thesis by (simp only: buildGrid_eq) blast
qed

lemma roundtrip_any_text:
  "\<exists>g ct. buildGrid key m = Inr g \<and>
     transform (normalize p m True) g 1 = Inr ct \<and>
     transform (normalize ct m False) g (- 1) = Inr (normalize p m True)"
proof -
  from buildGrid_props obtain g
    where g: "buildGrid key m = Inr g" "wf_grid g" "inj_grid g" "cells g = {c. permitted m c}"
    by blast
  let ?t = "normalize p m True"
  have "set ?t \<subseteq> cells g" using g(4) normalize_permitted by auto
  from list_roundtrip [OF g(2,3) this normalize_even] obtain ct
    where ct: "transformList g 1 ?t = Inr ct" "set ct \<subseteq> cells g" "length ct = length ?t"
      "transformList g (- 1) ct = Inr ?t" by blast
  from ct(2) g(4) have "\<forall>c \<in> set ct. permitted m c" by auto
  moreover from ct(3) have "even (length ct)" by (simp add: normalize_even)
  ultimately have "normalize ct m False = ct" by (rule normalize_id)
  with g(1) ct(1,4) show ?thesis by (simp add: transform_transformList)
qed

subsection \<open>The transformation, pair by pair\<close>

lemma transformList_total:
  assumes wf: "wf_grid g"
  shows "\<exists>out. transformList g d t = Inr out \<and> even (length out) \<and> set out \<subseteq> cells g"
proof (induction t rule: induct_list012)
  case 1
  show ?case by simp
next
  case (2 x)
  show ?case by simp
next
  case (3 a b rest)
  from transformPair_total [OF wf, of d a b] obtain two
    where two: "transformPair g d a b = Inr two" "set two \<subseteq> cells g"
      "length two = 0 \<or> length two = 2" by blast
  from "3.IH"(1) obtain out
    where out: "transformList g d rest = Inr out" "even (length out)" "set out \<subseteq> cells g"
    by blast
  from two out show ?case by auto
qed

lemma transformList_append:
  "even (length pre) \<Longrightarrow>
     transformList g d (pre @ rest) =
       (case transformList g d pre of
          Inl e \<Rightarrow> Inl e
        | Inr o1 \<Rightarrow> (case transformList g d rest of Inl e \<Rightarrow> Inl e | Inr o2 \<Rightarrow> Inr (o1 @ o2)))"
proof (induction pre rule: induct_list012)
  case 1
  show ?case by (simp split: sum.splits)
next
  case (2 x)
  then show ?case by simp
next
  case (3 a b pre)
  then show ?case by (simp split: sum.splits)
qed

lemma transformList_trailing:
  assumes "wf_grid g" "even (length t)"
  shows "transformList g d (t @ [c]) = transformList g d t"
proof -
  from transformList_total [OF assms(1), of d t] obtain out
    where "transformList g d t = Inr out" by blast
  then show ?thesis by (simp add: transformList_append [OF assms(2)])
qed

lemma transformList_absent:
  assumes "wf_grid g" "even (length pre)" "a \<notin> cells g \<or> b \<notin> cells g"
  shows "transformList g d (pre @ a # b # post) = transformList g d (pre @ post)"
proof -
  from assms(1,3) have "findCharacterPosition g a = None \<or> findCharacterPosition g b = None"
    by (simp add: find_None_cells)
  then have "transformPair g d a b = Inr []" by (rule transformPair_absent)
  then have eq: "transformList g d (a # b # post) = transformList g d post"
    by (simp split: sum.splits)
  show ?thesis by (simp only: transformList_append [OF assms(2)] eq)
qed

lemma buildGrid_concat_props:
  "\<exists>g. buildGrid key m = Inr g \<and> wf_grid g \<and> length (concat g) = 25 \<and>
     distinct (concat g) \<and> set (concat g) = set ALPHABET - {excludedLetter m}"
proof -
  let ?u = "uniqueLoop m ((if key = [] then DEFAULT_KEY else key) @ ALPHABET) []"
  have len: "length ?u = 25" by (rule uniqueLoop_alphabet_length)
  then have c: "concat (rowMajor ?u) = ?u" by (rule concat_rowMajor)
  have d: "distinct ?u" by (simp add: uniqueLoop_distinct)
  have s: "set ?u = set ALPHABET - {excludedLetter m}"
    by (simp only: uniqueLoop_alphabet_set permitted_set)
  have w: "wf_grid (rowMajor ?u)" using len by (simp add: wf_rowMajor)
  show ?thesis
  proof (intro exI conjI)
    show "buildGrid key m = Inr (rowMajor ?u)" by (rule buildGrid_eq)
    show "wf_grid (rowMajor ?u)" by (rule w)
    show "length (concat (rowMajor ?u)) = 25" by (simp only: c len)
    show "distinct (concat (rowMajor ?u))" by (simp only: c d)
    show "set (concat (rowMajor ?u)) = set ALPHABET - {excludedLetter m}" by (simp only: c s)
  qed
qed

lemma uniqueLoop_alphabet_only:
  "uniqueLoop m ALPHABET [] = filter (\<lambda>c. c \<noteq> excludedLetter m) ALPHABET"
proof -
  have "uniqueLoop True ALPHABET [] = filter (\<lambda>c. c \<noteq> excludedLetter True) ALPHABET"
    by code_simp
  moreover
  have "uniqueLoop False ALPHABET [] = filter (\<lambda>c. c \<noteq> excludedLetter False) ALPHABET"
    by code_simp
  ultimately show ?thesis by (cases m) simp_all
qed

section \<open>The claims\<close>

text \<open>
  C1. Round trip. For every plaintext of letters only, with no two equal letters adjacent
  and of even length, for every key and every reduction mode: the grid of the key exists,
  encrypting the prepared plaintext over it succeeds, and preparing that ciphertext for
  decryption and decrypting it over the same grid gives back the prepared plaintext.
  (\<open>roundtrip_any_text\<close> shows the same for every text whatsoever.)
\<close>

theorem C1_round_trip:
  assumes "lettersOnly plaintext" "noEqualAdjacent plaintext" "even (length plaintext)"
  shows "\<exists>g ct. buildGrid key mode = Inr g \<and>
     transform (normalize plaintext mode True) g 1 = Inr ct \<and>
     transform (normalize ct mode False) g (- 1) = Inr (normalize plaintext mode True)"
  by (rule roundtrip_any_text)

theorem C1_round_trip_witness:
  "lettersOnly ''HideTheGoldS'' \<and> noEqualAdjacent ''HideTheGoldS'' \<and>
   even (length ''HideTheGoldS'') \<and>
   (\<exists>g ct. buildGrid ''playfair example'' MergeJintoI = Inr g \<and>
     transform (normalize ''HideTheGoldS'' MergeJintoI True) g 1 = Inr ct \<and>
     transform (normalize ct MergeJintoI False) g (- 1) =
       Inr (normalize ''HideTheGoldS'' MergeJintoI True))"
proof -
  have h1: "lettersOnly ''HideTheGoldS''"
    by (simp add: lettersOnly_def toupper_def outsideAlphabet_def char_value_def
        FIRST_LETTER_def LAST_LETTER_def)
  have h2: "noEqualAdjacent ''HideTheGoldS''" by simp
  have h3: "even (length ''HideTheGoldS'')" by simp
  from h1 h2 h3 C1_round_trip [OF h1 h2 h3, of "''playfair example''" MergeJintoI]
  show ?thesis by (intro conjI)
qed

text \<open>
  C2, as stated, fails: under \<open>MergeJintoI\<close> the key \<open>JA\<close> and the key \<open>IA\<close> give
  different grids. The \<open>J\<close> of the key is skipped, not rewritten: the first cell of the
  grid of \<open>JA\<close> holds \<open>A\<close>, and \<open>I\<close> stands at its place in the alphabet.
\<close>

theorem C2_counterexample:
  "buildGrid ''JA'' MergeJintoI = Inr [''ABCDE'', ''FGHIK'', ''LMNOP'', ''QRSTU'', ''VWXYZ''] \<and>
   buildGrid ''IA'' MergeJintoI = Inr [''IABCD'', ''EFGHK'', ''LMNOP'', ''QRSTU'', ''VWXYZ''] \<and>
   buildGrid ''JA'' MergeJintoI \<noteq> buildGrid ''IA'' MergeJintoI"
  by code_simp

text \<open>
  C2, amended. Under \<open>MergeJintoI\<close> grid construction discards every \<open>J\<close> of the
  key-plus-alphabet stream before deduplication: the collected letters are those of the
  key without its \<open>J\<close> and \<open>j\<close>, and \<open>J\<close> is not among them. Consequently, for every
  key that keeps a character when its \<open>J\<close> and \<open>j\<close> are removed, the grid of the key is
  the grid of the key so shortened; the grid of \<open>JA\<close> is the grid of \<open>A\<close>.
\<close>

theorem C2_J_discarded:
  "uniqueLoop MergeJintoI (key @ ALPHABET) [] =
     uniqueLoop MergeJintoI (withoutJ key @ ALPHABET) [] \<and>
   CHR ''J'' \<notin> set (uniqueLoop MergeJintoI (key @ ALPHABET) []) \<and>
   (withoutJ key \<noteq> [] \<longrightarrow>
      buildGrid key MergeJintoI = buildGrid (withoutJ key) MergeJintoI) \<and>
   buildGrid ''JA'' MergeJintoI = buildGrid ''A'' MergeJintoI"
proof (intro conjI impI)
  show "uniqueLoop MergeJintoI (key @ ALPHABET) [] =
      uniqueLoop MergeJintoI (withoutJ key @ ALPHABET) []"
    by (simp add: MergeJintoI_def uniqueLoop_withoutJ)
  show "CHR ''J'' \<notin> set (uniqueLoop MergeJintoI (key @ ALPHABET) [])"
    by (simp add: uniqueLoop_alphabet_set permitted_def excludedLetter_def MergeJintoI_def)
  show "buildGrid ''JA'' MergeJintoI = buildGrid ''A'' MergeJintoI"
    by code_simp
next
  assume ne: "withoutJ key \<noteq> []"
  then have "key \<noteq> []" by (auto simp: withoutJ_def)
  with ne show "buildGrid key MergeJintoI = buildGrid (withoutJ key) MergeJintoI"
    by (simp add: buildGrid_eq MergeJintoI_def uniqueLoop_withoutJ)
qed

theorem C2_J_discarded_witness:
  "withoutJ ''Jack'' \<noteq> [] \<and> buildGrid ''Jack'' MergeJintoI = buildGrid (withoutJ ''Jack'') MergeJintoI"
proof -
  have h: "withoutJ ''Jack'' \<noteq> []" by code_simp
  with C2_J_discarded [of "''Jack''"] show ?thesis by blast
qed

text \<open>
  C3. The claim: during encryption preparation a pair of equal letters \<open>(a, b)\<close> emits
  \<open>a\<close> and the padding letter and starts the next pair with \<open>b\<close>, so that no digraph
  of the prepared sequence has two equal letters; \<open>AAA\<close> prepares to \<open>AXAXAX\<close> and
  \<open>AABB\<close> to \<open>AXABBX\<close>. The code does not achieve this. Its loop inserts the padding
  letter but goes on pairing the positions of the filtered text, two at a time, although
  the inserted letter has shifted the pairs of the output: \<open>AAA\<close> becomes \<open>AXAA\<close>,
  whose second digraph is \<open>AA\<close>, \<open>AAAA\<close> becomes \<open>AXAAXA\<close>, whose second digraph is
  \<open>AA\<close>, and \<open>AABB\<close> becomes \<open>AXABXB\<close>.
\<close>

theorem C3_code_at_AAA:
  "normalize ''AAA'' MergeJintoI True = ''AXAA'' \<and>
   normalize ''AAA'' MergeJintoI True \<noteq> ''AXAXAX'' \<and>
   normalize ''AAA'' MergeJintoI True ! 2 = normalize ''AAA'' MergeJintoI True ! 3 \<and>
   normalize ''AAAA'' MergeJintoI True = ''AXAAXA'' \<and>
   normalize ''AABB'' MergeJintoI True = ''AXABXB'' \<and>
   normalize ''AABB'' MergeJintoI True \<noteq> ''AXABBX''"
  by code_simp

text \<open>
  C4. Grid uniqueness and totality. For every key (the empty one and those without
  letters included) and every mode, the string of first occurrences that the fill loop
  indexes has exactly 25 characters, so \<open>buildGrid\<close> does not fail. The grid has five
  rows of five cells; its 25 cells hold distinct letters, exactly the alphabet without the
  letter the mode excludes.
\<close>

theorem C4_grid_unique_total:
  "length (uniqueLoop mode ((if key = [] then DEFAULT_KEY else key) @ ALPHABET) []) =
     GRID_TOTAL_CELLS \<and>
   (\<exists>g. buildGrid key mode = Inr g \<and> wf_grid g \<and> length (concat g) = 25 \<and>
     distinct (concat g) \<and> set (concat g) = set ALPHABET - {excludedLetter mode})"
  using buildGrid_concat_props [of key mode]
  by (simp only: uniqueLoop_alphabet_length GRID_TOTAL_CELLS_def simp_thms)

theorem C4_grid_unique_total_witness:
  "length (uniqueLoop DropQ ((if ''?!'' = [] then DEFAULT_KEY else ''?!'') @ ALPHABET) []) =
     GRID_TOTAL_CELLS \<and>
   (\<exists>g. buildGrid ''?!'' DropQ = Inr g \<and> wf_grid g \<and> length (concat g) = 25 \<and>
     distinct (concat g) \<and> set (concat g) = set ALPHABET - {excludedLetter DropQ})"
  by (rule C4_grid_unique_total)

text \<open>
  C5. Mode exclusivity. For every key and every text, prepared for encryption or for
  decryption: under \<open>MergeJintoI\<close> the letter \<open>J\<close> is in no cell of the grid and nowhere
  in the normalized sequence; under \<open>DropQ\<close> the same holds of \<open>Q\<close>.
\<close>

theorem C5_mode_exclusivity:
  "(\<exists>g. buildGrid key MergeJintoI = Inr g \<and> CHR ''J'' \<notin> cells g) \<and>
   CHR ''J'' \<notin> set (normalize inputText MergeJintoI forEncryption) \<and>
   (\<exists>g. buildGrid key DropQ = Inr g \<and> CHR ''Q'' \<notin> cells g) \<and>
   CHR ''Q'' \<notin> set (normalize inputText DropQ forEncryption)"
proof -
  have grid: "\<exists>g. buildGrid key m = Inr g \<and> excludedLetter m \<notin> cells g" for m
    using buildGrid_props [of key m] by (auto simp: permitted_def)
  have norm: "excludedLetter m \<notin> set (normalize inputText m forEncryption)" for m
    using normalize_permitted [of "excludedLetter m" inputText m forEncryption]
    by (auto simp: permitted_def)
  from grid [of True] grid [of False] norm [of True] norm [of False] show ?thesis
    by (simp add: excludedLetter_def MergeJintoI_def DropQ_def)
qed

theorem C5_mode_exclusivity_witness:
  "(\<exists>g. buildGrid ''JQ'' MergeJintoI = Inr g \<and> CHR ''J'' \<notin> cells g) \<and>
   CHR ''J'' \<notin> set (normalize ''jonquil'' MergeJintoI True) \<and>
   (\<exists>g. buildGrid ''JQ'' DropQ = Inr g \<and> CHR ''Q'' \<notin> cells g) \<and>
   CHR ''Q'' \<notin> set (normalize ''jonquil'' DropQ True)"
  by (rule C5_mode_exclusivity)

text \<open>
  C6. Decryption preparation. For every text and mode, \<open>normalize\<close> for decryption
  returns the upper-cased, filtered, reduction-mapped letter sequence as it is, followed
  by one padding letter exactly when that sequence has odd length.
\<close>

theorem C6_decryption_preparation:
  "normalize inputText mode False =
     filteredLetters mode inputText @
       (if odd (length (filteredLetters mode inputText)) then [PADDING_CHAR] else [])"
  by (simp add: normalize_eq)

theorem C6_decryption_preparation_witness:
  "normalize ''aab bq'' MergeJintoI False =
     filteredLetters MergeJintoI ''aab bq'' @
       (if odd (length (filteredLetters MergeJintoI ''aab bq'')) then [PADDING_CHAR] else []) \<and>
   normalize ''aab bq'' MergeJintoI False = ''AABBQX''"
proof -
  have "normalize ''aab bq'' MergeJintoI False = ''AABBQX''" by code_simp
  with C6_decryption_preparation [of "''aab bq''" MergeJintoI] show ?thesis by blast
qed

text \<open>
  C7. Coordinate wrap-around. For every integer column and row, \<open>getCharacterAtPosition\<close>
  reduces both to their residue modulo 5 in \<open>[0, 5)\<close> before it indexes the grid, \<open>- 1\<close>
  to 4 and 5 to 0, so that the lookup is inside the array and returns a letter of the grid.
  The intermediate values stay between \<open>- 4\<close> and 9, far from the limits of \<open>int\<close>.
\<close>

theorem C7_wrap_around:
  assumes "wf_grid g"
  shows "wrapIndex column = column mod 5 \<and> wrapIndex row = row mod 5 \<and>
     0 \<le> wrapIndex column \<and> wrapIndex column < 5 \<and>
     0 \<le> wrapIndex row \<and> wrapIndex row < 5 \<and>
     wrapIndex (- 1) = 4 \<and> wrapIndex 5 = 0 \<and>
     - 4 \<le> c_rem column GRID_SIZE \<and> c_rem column GRID_SIZE + GRID_SIZE \<le> 9 \<and>
     getCharacterAtPosition g column row =
       Inr (g ! nat (wrapIndex row) ! nat (wrapIndex column)) \<and>
     g ! nat (wrapIndex row) ! nat (wrapIndex column) \<in> cells g"
proof -
  have "g ! nat (row mod 5) ! nat (column mod 5) \<in> cells g"
    by (rule nth_in_cells [OF assms]) simp_all
  then show ?thesis
    using wrapIndex_no_overflow [of column]
    by (simp add: wrapIndex_mod getCharacterAtPosition_eq)
qed

theorem C7_wrap_around_witness:
  "wf_grid [''PLAYF'', ''IREXM'', ''BCDGH'', ''KNOQS'', ''TUVWZ''] \<and>
   getCharacterAtPosition [''PLAYF'', ''IREXM'', ''BCDGH'', ''KNOQS'', ''TUVWZ''] (- 1) 5 =
     Inr (CHR ''F'')"
proof -
  have h: "wf_grid [''PLAYF'', ''IREXM'', ''BCDGH'', ''KNOQS'', ''TUVWZ'']" by code_simp
  from C7_wrap_around [OF h, of "- 1" 5] h show ?thesis by simp
qed

text \<open>
  C8. Defensive skipping and even output. For every text, every grid and every direction,
  \<open>transform\<close> succeeds with an output of even length made of letters of the grid; a
  trailing letter without partner adds nothing; a pair with a letter that is not in the
  grid adds nothing.
\<close>

theorem C8_skipping_even_output:
  assumes "wf_grid g"
  shows "(\<exists>out. transform t g direction = Inr out \<and> even (length out) \<and> set out \<subseteq> cells g) \<and>
     (even (length t) \<longrightarrow> transform (t @ [c]) g direction = transform t g direction) \<and>
     (even (length pre) \<and> (a \<notin> cells g \<or> b \<notin> cells g) \<longrightarrow>
        transform (pre @ a # b # post) g direction = transform (pre @ post) g direction)"
  using transformList_total [OF assms, of direction t]
    transformList_trailing [OF assms, of t direction c]
    transformList_absent [OF assms, of pre a b direction post]
  by (simp only: transform_transformList) blast

theorem C8_skipping_even_output_witness:
  "wf_grid [''PLAYF'', ''IREXM'', ''BCDGH'', ''KNOQS'', ''TUVWZ''] \<and>
   even (length ''HI'') \<and> CHR ''J'' \<notin> cells [''PLAYF'', ''IREXM'', ''BCDGH'', ''KNOQS'', ''TUVWZ''] \<and>
   transform (''HI'' @ ''D'') [''PLAYF'', ''IREXM'', ''BCDGH'', ''KNOQS'', ''TUVWZ''] 1 =
     transform ''HI'' [''PLAYF'', ''IREXM'', ''BCDGH'', ''KNOQS'', ''TUVWZ''] 1 \<and>
   transform (''HI'' @ CHR ''J'' # CHR ''A'' # ''DE'') [''PLAYF'', ''IREXM'', ''BCDGH'', ''KNOQS'', ''TUVWZ''] 1 =
     transform (''HI'' @ ''DE'') [''PLAYF'', ''IREXM'', ''BCDGH'', ''KNOQS'', ''TUVWZ''] 1"
proof -
  let ?g = "[''PLAYF'', ''IREXM'', ''BCDGH'', ''KNOQS'', ''TUVWZ'']"
  have h: "wf_grid ?g" by code_simp
  have e: "even (length ''HI'')" by simp
  have j: "CHR ''J'' \<notin> cells ?g" by (simp add: cells_def)
  from C8_skipping_even_output [OF h, of "''HI''" 1 "CHR ''D''" "''HI''" "CHR ''J''" "CHR ''A''" "''DE''"] h e j
  show ?thesis by blast
qed

text \<open>
  C9. Preparing \<open>HELLO\<close> for encryption under \<open>MergeJintoI\<close> gives exactly the letters
  H, E, L, X, L, O: the digraphs HE LX LO, the padding letter between the two L.
\<close>

theorem C9_hello: "normalize ''HELLO'' MergeJintoI True = ''HELXLO''"
  by code_simp

text \<open>
  C10. The default key is the string \<open>KEYWORD\<close>: in every mode the grid of the empty key
  is the grid of the key \<open>KEYWORD\<close>. Only the empty key is replaced: a key that is not
  empty is used as it is, and when none of its characters is a letter the grid is the
  alphabet of the mode in its natural order, which is not the grid of the empty key.
\<close>

theorem C10_default_key:
  "DEFAULT_KEY = ''KEYWORD'' \<and>
   buildGrid [] mode = buildGrid ''KEYWORD'' mode \<and>
   (key \<noteq> [] \<longrightarrow>
      buildGrid key mode = Inr (rowMajor (uniqueLoop mode (key @ ALPHABET) []))) \<and>
   (key \<noteq> [] \<and> (\<forall>ch \<in> set key. outsideAlphabet (toupper ch)) \<longrightarrow>
      buildGrid key mode =
        Inr (rowMajor (filter (\<lambda>ch. ch \<noteq> excludedLetter mode) ALPHABET)) \<and>
      buildGrid key mode \<noteq> buildGrid [] mode)"
proof (intro conjI impI)
  show "DEFAULT_KEY = ''KEYWORD''" by (rule DEFAULT_KEY_def)
  show "buildGrid [] mode = buildGrid ''KEYWORD'' mode"
    by (simp add: buildGrid_eq DEFAULT_KEY_def)
next
  assume "key \<noteq> []"
  then show "buildGrid key mode = Inr (rowMajor (uniqueLoop mode (key @ ALPHABET) []))"
    by (simp add: buildGrid_eq)
next
  assume k: "key \<noteq> [] \<and> (\<forall>ch \<in> set key. outsideAlphabet (toupper ch))"
  then have u: "uniqueLoop mode (key @ ALPHABET) [] =
      filter (\<lambda>ch. ch \<noteq> excludedLetter mode) ALPHABET"
    by (simp add: uniqueLoop_no_letters uniqueLoop_alphabet_only)
  with k show plain: "buildGrid key mode =
      Inr (rowMajor (filter (\<lambda>ch. ch \<noteq> excludedLetter mode) ALPHABET))"
    by (simp add: buildGrid_eq)
  have "buildGrid [] True \<noteq> Inr (rowMajor (filter (\<lambda>ch. ch \<noteq> excludedLetter True) ALPHABET))"
    by code_simp
  moreover
  have "buildGrid [] False \<noteq> Inr (rowMajor (filter (\<lambda>ch. ch \<noteq> excludedLetter False) ALPHABET))"
    by code_simp
  ultimately
  have "buildGrid [] mode \<noteq> Inr (rowMajor (filter (\<lambda>ch. ch \<noteq> excludedLetter mode) ALPHABET))"
    by (cases mode) simp_all
  with plain show "buildGrid key mode \<noteq> buildGrid [] mode" by simp
qed

theorem C10_default_key_witness:
  "''12 34'' \<noteq> [] \<and> list_all (\<lambda>ch. outsideAlphabet (toupper ch)) ''12 34'' \<and>
   buildGrid ''12 34'' MergeJintoI = Inr [''ABCDE'', ''FGHIK'', ''LMNOP'', ''QRSTU'', ''VWXYZ''] \<and>
   buildGrid [] MergeJintoI = Inr [''KEYWO'', ''RDABC'', ''FGHIL'', ''MNPQS'', ''TUVXZ''] \<and>
   buildGrid ''12 34'' MergeJintoI \<noteq> buildGrid [] MergeJintoI"
proof -
  have h1: "''12 34'' \<noteq> []" by simp
  have h2: "list_all (\<lambda>ch. outsideAlphabet (toupper ch)) ''12 34''"
    by (simp add: toupper_def outsideAlphabet_def char_value_def FIRST_LETTER_def LAST_LETTER_def)
  then have h2': "\<forall>ch \<in> set ''12 34''. outsideAlphabet (toupper ch)"
    by (simp only: list_all_iff)
  have r: "rowMajor (filter (\<lambda>ch. ch \<noteq> excludedLetter MergeJintoI) ALPHABET) =
      [''ABCDE'', ''FGHIK'', ''LMNOP'', ''QRSTU'', ''VWXYZ'']" by code_simp
  have d: "buildGrid [] MergeJintoI = Inr [''KEYWO'', ''RDABC'', ''FGHIL'', ''MNPQS'', ''TUVXZ'']"
    by code_simp
  from C10_default_key [of MergeJintoI "''12 34''"] h1 h2'
  have "buildGrid ''12 34'' MergeJintoI =
      Inr (rowMajor (filter (\<lambda>ch. ch \<noteq> excludedLetter MergeJintoI) ALPHABET)) \<and>
    buildGrid ''12 34'' MergeJintoI \<noteq> buildGrid [] MergeJintoI" by blast
  with h1 h2 d show ?thesis by (simp only: r) blast
qed

end
